theory Spec2Isabelle
  imports Main "HOL-Library.Sublist" "HOL-Library.Char_ord"
begin

section \<open>Go strings\<close>

text \<open>
  A Go string is a sequence of bytes, here a \<^typ>\<open>string\<close>. The functions of package
  \<^verbatim>\<open>strings\<close> that the validator calls are modelled on bytes, as they act on ASCII text:
  \<^verbatim>\<open>ToLower\<close> moves \<^verbatim>\<open>A..Z\<close> to \<^verbatim>\<open>a..z\<close> and leaves every other byte as it is, and white
  space is the six ASCII space bytes of \<^verbatim>\<open>TrimSpace\<close> and \<^verbatim>\<open>Fields\<close>. The lists of the
  validator are ASCII. On a command with bytes beyond ASCII, Go also folds the case of
  letters of other alphabets and trims the white space of Unicode, which is outside this
  model.
\<close>

definition asciiSpace :: "char \<Rightarrow> bool" where
  "asciiSpace c = (c \<in> set [CHR 0x09, CHR 0x0A, CHR 0x0B, CHR 0x0C, CHR 0x0D, CHR 0x20])"

definition toLowerByte :: "char \<Rightarrow> char" where
  "toLowerByte c =
     (if CHR ''A'' \<le> c \<and> c \<le> CHR ''Z'' then char_of (of_char c + (32::nat)) else c)"

definition ToLower :: "string \<Rightarrow> string" where
  "ToLower s = map toLowerByte s"

definition TrimSpace :: "string \<Rightarrow> string" where
  "TrimSpace s = rev (dropWhile asciiSpace (rev (dropWhile asciiSpace s)))"

function Fields :: "string \<Rightarrow> string list" where
  "Fields s =
     (case dropWhile asciiSpace s of
        [] \<Rightarrow> []
      | c # cs \<Rightarrow>
          (c # takeWhile (\<lambda>x. \<not> asciiSpace x) cs) # Fields (dropWhile (\<lambda>x. \<not> asciiSpace x) cs))"
  by pat_completeness auto

lemma length_dropWhile_tail:
  "dropWhile P s = c # cs \<Longrightarrow> length (dropWhile Q cs) < length s"
proof -
  assume h: "dropWhile P s = c # cs"
  have "length (dropWhile Q cs) \<le> length cs"
    by (rule length_dropWhile_le)
  moreover have "length (c # cs) \<le> length s"
    using length_dropWhile_le [of P s] h by simp
  ultimately show ?thesis by simp
qed

termination Fields
  by (relation "measure length") (auto simp: length_dropWhile_tail)

declare Fields.simps [simp del]




text \<open>\<^verbatim>\<open>strings.Index\<close>: the first position where \<open>substr\<close> starts, \<open>None\<close> for Go's \<open>-1\<close>.\<close>

fun Index :: "string \<Rightarrow> string \<Rightarrow> nat option" where
  "Index [] substr = (if substr = [] then Some 0 else None)"
| "Index (c # cs) substr =
     (if prefix substr (c # cs) then Some 0 else map_option Suc (Index cs substr))"

definition Contains :: "string \<Rightarrow> string \<Rightarrow> bool" where
  "Contains s substr = (Index s substr \<noteq> None)"

lemma Index_Some_bound:
  "Index s sep = Some m \<Longrightarrow> m + length sep \<le> length s"
proof (induction s arbitrary: m)
  case Nil
  then show ?case by (simp split: if_splits)
next
  case (Cons c cs)
  show ?case
  proof (cases "prefix sep (c # cs)")
    case True
    then show ?thesis using Cons.prems prefix_length_le [of sep "c # cs"] by simp
  next
    case False
    then obtain k where "Index cs sep = Some k" "m = Suc k"
      using Cons.prems by auto
    then show ?thesis using Cons.IH by fastforce
  qed
qed

lemma Index_Some_drop_shorter:
  "Index s sep = Some m \<Longrightarrow> sep \<noteq> [] \<Longrightarrow> length s - (m + length sep) < length s"
  using Index_Some_bound [of s sep m] by (cases sep) auto

text \<open>\<^verbatim>\<open>strings.Split\<close>: cut at the leftmost occurrences of \<open>sep\<close>, one after the other.\<close>

function Split :: "string \<Rightarrow> string \<Rightarrow> string list" where
  "Split s sep =
     (if sep = [] then map (\<lambda>c. [c]) s
      else case Index s sep of
             None \<Rightarrow> [s]
           | Some m \<Rightarrow> take m s # Split (drop (m + length sep) s) sep)"
  by pat_completeness auto

termination Split
  by (relation "measure (\<lambda>(s, sep). length s)") (auto simp: Index_Some_drop_shorter)

declare Split.simps [simp del]

lemma Split_empty_sep [simp]: "Split s [] = map (\<lambda>c. [c]) s"
  by (subst Split.simps) simp

lemma Split_None [simp]: "sep \<noteq> [] \<Longrightarrow> Index s sep = None \<Longrightarrow> Split s sep = [s]"
  by (subst Split.simps) simp

lemma Split_Some [simp]:
  "sep \<noteq> [] \<Longrightarrow> Index s sep = Some m \<Longrightarrow>
   Split s sep = take m s # Split (drop (m + length sep) s) sep"
  by (subst Split.simps) simp

text \<open>\<^verbatim>\<open>strings.ReplaceAll\<close>: the leftmost occurrences of \<open>old\<close>, one after the other.\<close>

function ReplaceAll :: "string \<Rightarrow> string \<Rightarrow> string \<Rightarrow> string" where
  "ReplaceAll s old new =
     (if old = new then s
      else if old = [] then new @ concat (map (\<lambda>c. c # new) s)
      else case Index s old of
             None \<Rightarrow> s
           | Some j \<Rightarrow> take j s @ new @ ReplaceAll (drop (j + length old) s) old new)"
  by pat_completeness auto

termination ReplaceAll
  by (relation "measure (\<lambda>(s, old, new). length s)") (auto simp: Index_Some_drop_shorter)

declare ReplaceAll.simps [simp del]

lemma ReplaceAll_same [simp]: "ReplaceAll s old old = s"
  by (subst ReplaceAll.simps) simp

lemma ReplaceAll_None [simp]:
  "old \<noteq> [] \<Longrightarrow> Index s old = None \<Longrightarrow> ReplaceAll s old new = s"
  by (subst ReplaceAll.simps) simp

lemma ReplaceAll_Some [simp]:
  "old \<noteq> new \<Longrightarrow> old \<noteq> [] \<Longrightarrow> Index s old = Some j \<Longrightarrow>
   ReplaceAll s old new = take j s @ new @ ReplaceAll (drop (j + length old) s) old new"
  by (subst ReplaceAll.simps) simp

subsection \<open>Substrings, cuts and replacements\<close>

lemma Contains_sublist: "Contains s u = sublist u s"
  unfolding Contains_def
  by (induction s) (auto simp: sublist_Cons_right)

lemma Index_Some_decomp:
  "Index s sep = Some m \<Longrightarrow> s = take m s @ sep @ drop (m + length sep) s"
proof (induction s arbitrary: m)
  case Nil
  then show ?case by (simp split: if_splits)
next
  case (Cons c cs)
  show ?case
  proof (cases "prefix sep (c # cs)")
    case True
    then show ?thesis using Cons.prems
      by (auto simp: prefix_def)
  next
    case False
    then obtain k where k: "Index cs sep = Some k" "m = Suc k"
      using Cons.prems by auto
    then show ?thesis using Cons.IH [OF k(1)] by simp
  qed
qed

lemma sublist_skip_one:
  assumes "sublist u (A @ x # B)" "x \<notin> set u"
  shows "sublist u A \<or> sublist u B"
proof -
  obtain ps ss where eq: "A @ x # B = ps @ u @ ss"
    using assms(1) by (auto simp: sublist_def)
  then consider (l) us where "A = ps @ us" "us @ x # B = u @ ss"
    | (r) us where "A @ us = ps" "x # B = us @ u @ ss"
    by (auto simp: append_eq_append_conv2)
  then show ?thesis
  proof cases
    case l
    from l(2) consider (ll) vs where "us = u @ vs"
      | (lr) vs where "us @ vs = u" "x # B = vs @ ss"
      by (auto simp: append_eq_append_conv2)
    then show ?thesis
    proof cases
      case ll
      then show ?thesis using l(1) by (auto simp: sublist_def)
    next
      case lr
      show ?thesis
      proof (cases vs)
        case Nil
        then have "A = ps @ u @ []" using lr l(1) by simp
        then show ?thesis unfolding sublist_def by blast
      next
        case (Cons v vs')
        then show ?thesis using lr assms(2) by auto
      qed
    qed
  next
    case r
    show ?thesis
    proof (cases us)
      case Nil
      then show ?thesis using r(2) assms(2) by (cases u) auto
    next
      case (Cons v vs')
      then have "B = vs' @ u @ ss" using r(2) by simp
      then show ?thesis by (auto simp: sublist_def)
    qed
  qed
qed

lemma sublist_skip:
  assumes "sublist u (A @ old @ B)" "set u \<inter> set old = {}" "old \<noteq> []"
  shows "sublist u A \<or> sublist u B"
  using assms
proof (induction old arbitrary: A)
  case Nil
  then show ?case by simp
next
  case (Cons x old)
  have "x \<notin> set u" using Cons.prems(2) by auto
  moreover have "sublist u (A @ x # (old @ B))" using Cons.prems(1) by simp
  ultimately have "sublist u A \<or> sublist u (old @ B)"
    by (rule sublist_skip_one [rotated])
  moreover have "sublist u B" if "sublist u (old @ B)"
  proof (cases "old = []")
    case True
    then show ?thesis using that by simp
  next
    case False
    have "sublist u ([] @ old @ B)" using that by simp
    moreover have "set u \<inter> set old = {}" using Cons.prems(2) by auto
    ultimately have "sublist u [] \<or> sublist u B"
      using Cons.IH False by blast
    then show ?thesis by auto
  qed
  ultimately show ?case by blast
qed

lemma sublist_ReplaceAll:
  "sublist u s \<Longrightarrow> set u \<inter> set old = {} \<Longrightarrow> old \<noteq> [] \<Longrightarrow> sublist u (ReplaceAll s old new)"
proof (induction s old new rule: ReplaceAll.induct)
  case (1 s old new)
  show ?case
  proof (cases "old = new")
    case True
    then show ?thesis using "1.prems" by simp
  next
    case False
    show ?thesis
    proof (cases "Index s old")
      case None
      then show ?thesis using "1.prems" False by simp
    next
      case (Some j)
      let ?B = "drop (j + length old) s"
      have s: "s = take j s @ old @ ?B" by (rule Index_Some_decomp [OF Some])
      have "sublist u (take j s @ old @ ?B)" using "1.prems"(1) s by simp
      then have "sublist u (take j s) \<or> sublist u ?B"
        using "1.prems"(2,3) by (rule sublist_skip)
      moreover have "sublist u (ReplaceAll ?B old new)" if "sublist u ?B"
        using "1.IH" [OF False "1.prems"(3) Some that "1.prems"(2,3)] .
      moreover have "ReplaceAll s old new = take j s @ new @ ReplaceAll ?B old new"
        using False "1.prems"(3) Some by simp
      ultimately show ?thesis
        by (metis sublist_append_rightI sublist_order.order.trans sublist_append_leftI)
    qed
  qed
qed


lemma length_ReplaceAll_le:
  "old \<noteq> [] \<Longrightarrow> length new \<le> length old \<Longrightarrow> length (ReplaceAll s old new) \<le> length s"
proof (induction s old new rule: ReplaceAll.induct)
  case (1 s old new)
  show ?case
  proof (cases "old = new")
    case True
    then show ?thesis by simp
  next
    case False
    show ?thesis
    proof (cases "Index s old")
      case None
      then show ?thesis using "1.prems" False by simp
    next
      case (Some j)
      let ?B = "drop (j + length old) s"
      have "length (ReplaceAll ?B old new) \<le> length ?B"
        using "1.IH" [OF False "1.prems"(1) Some "1.prems"] .
      moreover have "ReplaceAll s old new = take j s @ new @ ReplaceAll ?B old new"
        using False "1.prems"(1) Some by simp
      moreover have "j + length old \<le> length s" by (rule Index_Some_bound [OF Some])
      ultimately show ?thesis using "1.prems"(2) by simp
    qed
  qed
qed

lemma ReplaceAll_has_new:
  "Contains s old \<Longrightarrow> old \<noteq> [] \<Longrightarrow> old \<noteq> new \<Longrightarrow> sublist new (ReplaceAll s old new)"
proof -
  assume h: "Contains s old" "old \<noteq> []" "old \<noteq> new"
  then obtain j where j: "Index s old = Some j" by (auto simp: Contains_def)
  then have "ReplaceAll s old new = take j s @ new @ ReplaceAll (drop (j + length old) s) old new"
    using h by simp
  then show ?thesis by (auto simp: sublist_def)
qed

lemma Split_length_le:
  "seg \<in> set (Split s sep) \<Longrightarrow> length seg \<le> length s"
proof (induction s sep arbitrary: seg rule: Split.induct)
  case (1 s sep)
  show ?case
  proof (cases "sep = []")
    case True
    then show ?thesis using "1.prems" by (cases s) auto
  next
    case False
    show ?thesis
    proof (cases "Index s sep")
      case None
      then show ?thesis using "1.prems" False by simp
    next
      case (Some m)
      then have "seg = take m s \<or> seg \<in> set (Split (drop (m + length sep) s) sep)"
        using "1.prems" False by simp
      then show ?thesis
        using "1.IH" [OF False Some] by fastforce
    qed
  qed
qed

lemma Split_length_less:
  "Contains s sep \<Longrightarrow> sep \<noteq> [] \<Longrightarrow> seg \<in> set (Split s sep) \<Longrightarrow> length seg < length s"
proof -
  assume h: "Contains s sep" "sep \<noteq> []" "seg \<in> set (Split s sep)"
  then obtain m where m: "Index s sep = Some m" by (auto simp: Contains_def)
  let ?B = "drop (m + length sep) s"
  have b: "m + length sep \<le> length s" by (rule Index_Some_bound [OF m])
  have "0 < length sep" using h(2) by simp
  have "seg = take m s \<or> seg \<in> set (Split ?B sep)"
    using h m by simp
  then show ?thesis
  proof
    assume "seg = take m s"
    then have "length seg \<le> m" by simp
    then show ?thesis using b \<open>0 < length sep\<close> by linarith
  next
    assume "seg \<in> set (Split ?B sep)"
    then have "length seg \<le> length ?B" by (rule Split_length_le)
    then have "length seg \<le> length s - (m + length sep)" by simp
    then show ?thesis using b \<open>0 < length sep\<close> by linarith
  qed
qed

section \<open>The command validator (package executor)\<close>

definition AllowedCommands :: "string list" where
  "AllowedCommands =
     [''git'', ''gh'',
      ''ls'', ''cat'', ''head'', ''tail'', ''find'', ''grep'', ''wc'', ''diff'',
      ''echo'', ''pwd'', ''date'', ''which'', ''file'', ''stat'',
      ''make'', ''mvn'', ''gradle'', ''npm'', ''yarn'', ''pnpm'', ''cargo'', ''go'']"

definition DangerousPatterns :: "string list" where
  "DangerousPatterns =
     [''rm -rf /'', ''rm -rf ~'', ''rm -rf $HOME'', ''> /dev/'', ''mkfs'', ''dd if='',
      '':(){:|:&};:'',
      ''curl.*|.*sh'', ''wget.*|.*sh'',
      ''sudo'', ''su -'', ''chmod 777'', ''chown root'',
      ''/etc/passwd'', ''/etc/shadow'', ''~/.ssh'', ''.ssh/'',
      ''printenv'', ''export.*='']"

definition BlockedGitCommands :: "string list" where
  "BlockedGitCommands =
     [''push --force'', ''push -f'', ''reset --hard'', ''clean -f'', ''clean -fd'',
      ''checkout .'', ''restore .'']"

text \<open>The errors \<^verbatim>\<open>fmt.Errorf\<close> builds in this file, and the text each one prints.\<close>

datatype error =
    EmptyCommand
  | DangerousPattern string
  | NotAllowed string
  | NotAllowedInPipe string
  | GitOperationNotAllowed string
  | DirectPushNotAllowed

fun Error :: "error \<Rightarrow> string" where
  "Error EmptyCommand = ''empty command''"
| "Error (DangerousPattern pattern) = ''command contains dangerous pattern: '' @ pattern"
| "Error (NotAllowed baseCmd) = ''command not allowed: '' @ baseCmd"
| "Error (NotAllowedInPipe p) = ''command not allowed in pipe: '' @ p"
| "Error (GitOperationNotAllowed blocked) = ''git operation not allowed: '' @ blocked"
| "Error DirectPushNotAllowed = ''direct push to main/master not allowed''"

text \<open>A Go \<^verbatim>\<open>error\<close> result: \<open>Inl e\<close> is the error \<open>e\<close>, \<open>Inr ()\<close> is \<^verbatim>\<open>nil\<close>.\<close>

type_synonym verdict = "error + unit"

definition isAllowedCommand :: "string \<Rightarrow> bool" where
  "isAllowedCommand cmd =
     (let cmd' = (if Contains cmd ''/'' then last (Split cmd ''/'') else cmd)
      in cmd' \<in> set AllowedCommands)"

definition validateGitCommand :: "string \<Rightarrow> verdict" where
  "validateGitCommand command =
     (let lowerCmd = ToLower command in
      case find (\<lambda>blocked. Contains lowerCmd (ToLower blocked)) BlockedGitCommands of
        Some blocked \<Rightarrow> Inl (GitOperationNotAllowed blocked)
      | None \<Rightarrow>
          if Contains lowerCmd ''push'' then
            if Contains lowerCmd ''main'' \<or> Contains lowerCmd ''master'' then
              if \<not> Contains lowerCmd ''-u'' \<and> \<not> Contains lowerCmd ''--set-upstream''
              then Inl DirectPushNotAllowed
              else Inr ()
            else Inr ()
          else Inr ())"

text \<open>The loop of \<^verbatim>\<open>validatePipeChain\<close> over the pieces between the pipes.\<close>

fun validatePipes :: "string list \<Rightarrow> verdict" where
  "validatePipes [] = Inr ()"
| "validatePipes (pipe # pipes) =
     (let pipe' = TrimSpace pipe in
      if pipe' = [] then validatePipes pipes
      else case Fields pipe' of
             [] \<Rightarrow> validatePipes pipes
           | p0 # _ \<Rightarrow>
               if \<not> isAllowedCommand p0 then Inl (NotAllowedInPipe p0)
               else validatePipes pipes)"

definition validatePipeChain :: "string \<Rightarrow> verdict" where
  "validatePipeChain command = validatePipes (Split command ''|'')"

text \<open>
  \<^verbatim>\<open>validateChainedCommands\<close> first turns every \<^verbatim>\<open>&&\<close> and every \<^verbatim>\<open>;\<close> into a newline and
  then cuts at the newlines.
\<close>

definition chainedCommands :: "string \<Rightarrow> string list" where
  "chainedCommands command =
     Split (ReplaceAll (ReplaceAll command ''&&'' [CHR 0x0A]) '';'' [CHR 0x0A]) [CHR 0x0A]"

lemma chainedCommands_length_le:
  assumes "seg \<in> set (chainedCommands c)"
  shows "length seg \<le> length c"
proof -
  let ?r1 = "ReplaceAll c ''&&'' [CHR 0x0A]"
  let ?r2 = "ReplaceAll ?r1 '';'' [CHR 0x0A]"
  have "length seg \<le> length ?r2"
    using assms unfolding chainedCommands_def by (rule Split_length_le)
  also have "\<dots> \<le> length ?r1" by (rule length_ReplaceAll_le) simp_all
  also have "\<dots> \<le> length c" by (rule length_ReplaceAll_le) simp_all
  finally show ?thesis .
qed

lemma chainedCommands_length_less:
  assumes "Contains c ''&&'' \<or> Contains c '';''" "seg \<in> set (chainedCommands c)"
  shows "length seg < length c"
proof -
  let ?r1 = "ReplaceAll c ''&&'' [CHR 0x0A]"
  let ?r2 = "ReplaceAll ?r1 '';'' [CHR 0x0A]"
  have "sublist [CHR 0x0A] ?r2"
    using assms(1)
  proof
    assume "Contains c ''&&''"
    then have "sublist [CHR 0x0A] ?r1" by (rule ReplaceAll_has_new) simp_all
    then show ?thesis by (rule sublist_ReplaceAll) simp_all
  next
    assume "Contains c '';''"
    then have "sublist '';'' c" by (simp add: Contains_sublist)
    then have "sublist '';'' ?r1" by (rule sublist_ReplaceAll) simp_all
    then have "Contains ?r1 '';''" by (simp add: Contains_sublist)
    then show ?thesis by (rule ReplaceAll_has_new) simp_all
  qed
  then have "Contains ?r2 [CHR 0x0A]" by (simp add: Contains_sublist)
  moreover have "seg \<in> set (Split ?r2 [CHR 0x0A])"
    using assms(2) by (simp add: chainedCommands_def)
  ultimately have "length seg < length ?r2"
    using Split_length_less [of ?r2 "[CHR 0x0A]" seg] by simp
  also have "\<dots> \<le> length ?r1" by (rule length_ReplaceAll_le) simp_all
  also have "\<dots> \<le> length c" by (rule length_ReplaceAll_le) simp_all
  finally show ?thesis .
qed

lemma length_TrimSpace_le: "length (TrimSpace s) \<le> length s"
proof -
  have "length (TrimSpace s) \<le> length (dropWhile asciiSpace s)"
    unfolding TrimSpace_def using length_dropWhile_le [of asciiSpace "rev (dropWhile asciiSpace s)"]
    by simp
  also have "\<dots> \<le> length s" by (rule length_dropWhile_le)
  finally show ?thesis .
qed

text \<open>The longest element of a list of strings: the measure of the loop over the chain.\<close>

fun maxLen :: "string list \<Rightarrow> nat" where
  "maxLen [] = 0"
| "maxLen (c # cs) = max (length c) (maxLen cs)"

lemma maxLen_le: "(\<And>seg. seg \<in> set cs \<Longrightarrow> length seg \<le> n) \<Longrightarrow> maxLen cs \<le> n"
  by (induction cs) auto

lemma maxLen_less: "0 < n \<Longrightarrow> (\<And>seg. seg \<in> set cs \<Longrightarrow> length seg < n) \<Longrightarrow> maxLen cs < n"
  by (induction cs) auto

lemma maxLen_chained_le: "maxLen (chainedCommands c) \<le> length c"
  by (rule maxLen_le) (rule chainedCommands_length_le)

lemma Contains_nonempty: "Contains c u \<Longrightarrow> u \<noteq> [] \<Longrightarrow> c \<noteq> []"
  by (cases c) (auto simp: Contains_def)

lemma maxLen_chained_less:
  assumes "Contains c ''&&'' \<or> Contains c '';''"
  shows "maxLen (chainedCommands c) < length c"
proof (rule maxLen_less)
  have "c \<noteq> []" using assms Contains_nonempty by fastforce
  then show "0 < length c" by simp
next
  fix seg assume "seg \<in> set (chainedCommands c)"
  then show "length seg < length c" using assms by (rule chainedCommands_length_less [rotated])
qed

function ValidateCommand :: "string \<Rightarrow> verdict"
  and validateChainedCommands :: "string \<Rightarrow> verdict"
  and validateChain :: "string list \<Rightarrow> verdict"
where
  "ValidateCommand command0 =
     (let command = TrimSpace command0 in
      if command = [] then Inl EmptyCommand
      else
        case find (\<lambda>pattern. Contains (ToLower command) (ToLower pattern)) DangerousPatterns of
          Some pattern \<Rightarrow> Inl (DangerousPattern pattern)
        | None \<Rightarrow>
            (case Fields command of
               [] \<Rightarrow> Inl EmptyCommand
             | baseCmd # _ \<Rightarrow>
                 if Contains command ''|'' then validatePipeChain command
                 else if Contains command ''&&'' \<or> Contains command '';''
                 then validateChainedCommands command
                 else if \<not> isAllowedCommand baseCmd then Inl (NotAllowed baseCmd)
                 else if baseCmd = ''git'' then validateGitCommand command
                 else Inr ()))"
| "validateChainedCommands command = validateChain (chainedCommands command)"
| "validateChain [] = Inr ()"
| "validateChain (cmd # cmds) =
     (let cmd' = TrimSpace cmd in
      if cmd' = [] then validateChain cmds
      else case ValidateCommand cmd' of
             Inl err \<Rightarrow> Inl err
           | Inr _ \<Rightarrow> validateChain cmds)"
  by pat_completeness auto

termination ValidateCommand
proof (relation "measures [\<lambda>x. case x of Inl c \<Rightarrow> 3 * length c + 2
       | Inr (Inl c) \<Rightarrow> (if Contains c ''&&'' \<or> Contains c '';'' then 3 * length c + 1 else 3 * length c + 4)
       | Inr (Inr cs) \<Rightarrow> 3 * maxLen cs + 3,
       \<lambda>x. case x of Inl c \<Rightarrow> 0 | Inr (Inl c) \<Rightarrow> 0 | Inr (Inr cs) \<Rightarrow> length cs]", goal_cases)
  case 1
  then show ?case by simp
next
  case (2 command0 x)
  then show ?case using length_TrimSpace_le [of command0] by auto
next
  case (3 command)
  then show ?case
    using maxLen_chained_le [of command] maxLen_chained_less [of command] by auto
next
  case (4 cmd cmds x)
  then show ?case by auto
next
  case (5 cmd cmds x)
  then show ?case using length_TrimSpace_le [of cmd] by auto
next
  case (6 cmd cmds x)
  then show ?case by auto
qed

declare ValidateCommand.simps [simp del] validateChainedCommands.simps [simp del]

subsection \<open>Trimming and case folding\<close>

lemma asciiSpace_of_char:
  "asciiSpace c = (of_char c \<in> {9, 10, 11, 12, 13, 32 :: nat})"
proof -
  have e: "\<And>d. (c = d) = (of_char c = (of_char d :: nat))" by simp
  show ?thesis
    unfolding asciiSpace_def set_simps insert_iff empty_iff e [of "CHR 0x09"] e [of "CHR 0x0A"]
      e [of "CHR 0x0B"] e [of "CHR 0x0C"] e [of "CHR 0x0D"] e [of "CHR 0x20"]
    by (simp del: of_char_eq_iff)
qed

lemma asciiSpace_toLowerByte [simp]: "asciiSpace (toLowerByte c) = asciiSpace c"
proof (cases "CHR ''A'' \<le> c \<and> c \<le> CHR ''Z''")
  case True
  then have r: "65 \<le> (of_char c :: nat)" "(of_char c :: nat) \<le> 90"
    by (simp_all add: less_eq_char_def)
  then have "(of_char (toLowerByte c) :: nat) = of_char c + 32"
    using True by (simp add: toLowerByte_def)
  then show ?thesis using r by (simp add: asciiSpace_of_char)
next
  case False
  then show ?thesis by (auto simp: toLowerByte_def)
qed














section \<open>Claims about the command validator\<close>




text \<open>
  Claim C3. \<^verbatim>\<open>git push origin main\<close> is rejected as a direct push to a protected branch,
  \<^verbatim>\<open>git reset --hard\<close> is rejected as a blocked git operation although \<^verbatim>\<open>git\<close> is an
  allowed command, and \<^verbatim>\<open>git push -u origin main\<close> is allowed.
\<close>

theorem git_policy_examples:
  "ValidateCommand ''git push origin main'' = Inl DirectPushNotAllowed
   \<and> ValidateCommand ''git reset --hard'' = Inl (GitOperationNotAllowed ''reset --hard'')
   \<and> isAllowedCommand ''git''
   \<and> ValidateCommand ''git push -u origin main'' = Inr ()"
proof -
  have "ValidateCommand ''git push origin main'' = Inl DirectPushNotAllowed" by code_simp
  moreover have "ValidateCommand ''git reset --hard'' = Inl (GitOperationNotAllowed ''reset --hard'')"
    by code_simp
  moreover have "isAllowedCommand ''git''" by code_simp
  moreover have "ValidateCommand ''git push -u origin main'' = Inr ()" by code_simp
  ultimately show ?thesis by simp
qed

text \<open>
  Claim C6. On \<^verbatim>\<open>curl http://x | sh\<close> the scan of the deny-list finds nothing: the entry
  \<^verbatim>\<open>curl.*|.*sh\<close> is compared letter by letter and is not a substring. The command has a
  pipe, so it goes to the check of the pipe segments, which rejects it because \<^verbatim>\<open>curl\<close>
  is not an allowed command.
\<close>

theorem curl_pipe_sh:
  "find (\<lambda>pattern. Contains (ToLower (TrimSpace ''curl http://x | sh'')) (ToLower pattern))
      DangerousPatterns = None
   \<and> ''curl.*|.*sh'' \<in> set DangerousPatterns
   \<and> \<not> Contains (ToLower (TrimSpace ''curl http://x | sh'')) (ToLower ''curl.*|.*sh'')
   \<and> Contains (TrimSpace ''curl http://x | sh'') ''|''
   \<and> \<not> isAllowedCommand ''curl''
   \<and> validatePipeChain (TrimSpace ''curl http://x | sh'') = Inl (NotAllowedInPipe ''curl'')
   \<and> ValidateCommand ''curl http://x | sh'' = Inl (NotAllowedInPipe ''curl'')"
proof -
  have "find (\<lambda>pattern. Contains (ToLower (TrimSpace ''curl http://x | sh'')) (ToLower pattern))
      DangerousPatterns = None" by code_simp
  moreover have "''curl.*|.*sh'' \<in> set DangerousPatterns" by code_simp
  moreover have "\<not> Contains (ToLower (TrimSpace ''curl http://x | sh'')) (ToLower ''curl.*|.*sh'')"
    by code_simp
  moreover have "Contains (TrimSpace ''curl http://x | sh'') ''|''" by code_simp
  moreover have "\<not> isAllowedCommand ''curl''" by code_simp
  moreover have "validatePipeChain (TrimSpace ''curl http://x | sh'') = Inl (NotAllowedInPipe ''curl'')"
    by code_simp
  moreover have "ValidateCommand ''curl http://x | sh'' = Inl (NotAllowedInPipe ''curl'')" by code_simp
  ultimately show ?thesis by simp
qed































section \<open>The conversation store (package storage)\<close>

text \<open>A \<^verbatim>\<open>time.Time\<close> is a number here, \<open>0\<close> for the zero value of the type.\<close>

type_synonym time = int

record Message =
  Role :: string
  Content :: string
  Timestamp :: time

record Conversation =
  ID :: string
  ChannelID :: string
  Messages :: "Message list"
  CreatedAt :: time
  UpdatedAt :: time

section \<open>Messages of the model API (package claude)\<close>

text \<open>
  The blocks of a response of the model: text, a request to use a tool (its id, its input
  as raw JSON, the name of the tool), or a block of another kind.
\<close>

datatype ContentBlock =
    TextBlock string
  | ToolUseBlock string string string
  | OtherBlock

text \<open>A response: its blocks and its stop reason (a string in the SDK).\<close>

datatype AnthropicMessage = AnthropicMessage "ContentBlock list" string

datatype MessageParamRole = MessageParamRoleUser | MessageParamRoleAssistant

datatype ContentBlockParam =
    NewTextBlock string
  | RequestToolUseBlock string string string
  | NewToolResultBlock string string bool

datatype MessageParam = MessageParam MessageParamRole "ContentBlockParam list"

record ToolResult =
  ToolUseID :: string
  Result :: string
  IsError :: bool

definition BuildUserMessage :: "string \<Rightarrow> MessageParam" where
  "BuildUserMessage content = MessageParam MessageParamRoleUser [NewTextBlock content]"

definition BuildAssistantMessage :: "string \<Rightarrow> MessageParam" where
  "BuildAssistantMessage content = MessageParam MessageParamRoleAssistant [NewTextBlock content]"

definition BuildToolResultsMessage :: "ToolResult list \<Rightarrow> MessageParam" where
  "BuildToolResultsMessage results =
     MessageParam MessageParamRoleUser
       (map (\<lambda>r. NewToolResultBlock (ToolUseID r) (Result r) (IsError r)) results)"

fun ExtractTextContent :: "AnthropicMessage \<Rightarrow> string" where
  "ExtractTextContent (AnthropicMessage blocks stop) =
     concat (map (\<lambda>block. case block of TextBlock t \<Rightarrow> t | _ \<Rightarrow> []) blocks)"

fun ExtractToolUses :: "AnthropicMessage \<Rightarrow> (string \<times> string \<times> string) list" where
  "ExtractToolUses (AnthropicMessage blocks stop) =
     concat (map (\<lambda>block. case block of ToolUseBlock i inp n \<Rightarrow> [(i, inp, n)] | _ \<Rightarrow> []) blocks)"

fun HasToolUse :: "AnthropicMessage \<Rightarrow> bool" where
  "HasToolUse (AnthropicMessage blocks stop) = (stop = ''tool_use'')"

text \<open>An error of a tool is its text, as \<^verbatim>\<open>%v\<close> prints it.\<close>

definition FormatError :: "string \<Rightarrow> string" where
  "FormatError err = ''Error: '' @ err"

section \<open>The conversation manager (package claude)\<close>

text \<open>
  The model API, the tool executor, the store and the logger are outside the manager. Each
  is a function on a world \<open>'w\<close> that the manager is given; an error result is \<open>Inl\<close> of its
  text.
\<close>

datatype LogValue = Str string | Num nat

datatype LogRecord = Debug string "(string \<times> LogValue) list" | Warn string "(string \<times> LogValue) list"

record ('w, 't) ConversationManager =
  client :: "string \<Rightarrow> MessageParam list \<Rightarrow> 't \<Rightarrow> 'w \<Rightarrow> (string + AnthropicMessage) \<times> 'w"
  storeGet :: "string \<Rightarrow> 'w \<Rightarrow> (string + Conversation option) \<times> 'w"
  storeAddMessage :: "string \<Rightarrow> string \<Rightarrow> Message \<Rightarrow> 'w \<Rightarrow> string option \<times> 'w"
  systemPrompt :: string
  tools :: 't
  executor :: "string \<Rightarrow> string \<Rightarrow> 'w \<Rightarrow> (string + string) \<times> 'w"
  logger :: "LogRecord \<Rightarrow> 'w \<Rightarrow> 'w"

text \<open>
  A run of the manager: the world, and two counters that the program does not have. They
  count the calls of the model and the executions of a tool as they happen.
\<close>

record 'w run =
  world :: 'w
  modelCalls :: nat
  toolExecutions :: nat

datatype AgentError =
    GetConversationFailed string
  | ClaudeAPIError string
  | ExceededMaxIterations nat

definition maxIterations :: nat where
  "maxIterations = 20"




definition CreateMessageWithTools ::
  "('w, 't) ConversationManager \<Rightarrow> MessageParam list \<Rightarrow> 'w run \<Rightarrow> (string + AnthropicMessage) \<times> 'w run" where
  "CreateMessageWithTools m messages st =
     (case client m (systemPrompt m) messages (tools m) (world st) of
        (r, w') \<Rightarrow> (r, st\<lparr>world := w', modelCalls := Suc (modelCalls st)\<rparr>))"

definition callExecutor ::
  "('w, 't) ConversationManager \<Rightarrow> string \<Rightarrow> string \<Rightarrow> 'w run \<Rightarrow> (string + string) \<times> 'w run" where
  "callExecutor m name input st =
     (case executor m name input (world st) of
        (r, w') \<Rightarrow> (r, st\<lparr>world := w', toolExecutions := Suc (toolExecutions st)\<rparr>))"

definition logTo :: "('w, 't) ConversationManager \<Rightarrow> LogRecord \<Rightarrow> 'w run \<Rightarrow> 'w run" where
  "logTo m r st = st\<lparr>world := logger m r (world st)\<rparr>"

text \<open>The loop over the tool uses of one response; \<open>results\<close> is the slice it appends to.\<close>

fun executeTools ::
  "('w, 't) ConversationManager \<Rightarrow> (string \<times> string \<times> string) list \<Rightarrow> ToolResult list \<Rightarrow> 'w run
     \<Rightarrow> ToolResult list \<times> 'w run" where
  "executeTools m [] results st = (results, st)"
| "executeTools m ((toolID, toolInput, toolName) # toolUses) results st =
     (let st1 = logTo m (Debug ''executing tool'' [(''name'', Str toolName), (''id'', Str toolID)]) st in
      case callExecutor m toolName toolInput st1 of
        (r, st2) \<Rightarrow>
          let isError = (case r of Inl err \<Rightarrow> True | Inr res \<Rightarrow> False);
              result = (case r of Inl err \<Rightarrow> FormatError err | Inr res \<Rightarrow> res)
          in executeTools m toolUses
               (results @ [\<lparr>ToolUseID = toolID, Result = result, IsError = isError\<rparr>]) st2)"

text \<open>The assistant message built from the whole response: its text and its tool uses.\<close>

fun assistantContent :: "AnthropicMessage \<Rightarrow> ContentBlockParam list" where
  "assistantContent (AnthropicMessage blocks stop) =
     concat (map (\<lambda>block. case block of
                     TextBlock t \<Rightarrow> (if t \<noteq> [] then [NewTextBlock t] else [])
                   | ToolUseBlock i inp n \<Rightarrow> [RequestToolUseBlock i inp n]
                   | OtherBlock \<Rightarrow> []) blocks)"

text \<open>
  The loop of \<^verbatim>\<open>processWithToolLoop\<close> from iteration \<open>i\<close> on.
\<close>

function processLoop ::
  "('w, 't) ConversationManager \<Rightarrow> nat \<Rightarrow> MessageParam list \<Rightarrow> 'w run \<Rightarrow> (AgentError + string) \<times> 'w run" where
  "processLoop m i messages st =
     (if i < maxIterations then
        (case CreateMessageWithTools m messages st of
           (Inl err, st1) \<Rightarrow> (Inl (ClaudeAPIError err), st1)
         | (Inr response, st1) \<Rightarrow>
             if \<not> HasToolUse response then (Inr (ExtractTextContent response), st1)
             else
               let toolUses = ExtractToolUses response;
                   st2 = logTo m (Debug ''processing tool uses'' [(''count'', Num (length toolUses))]) st1;
                   messages1 = messages @ [MessageParam MessageParamRoleAssistant (assistantContent response)]
               in case executeTools m toolUses [] st2 of
                    (results, st3) \<Rightarrow>
                      processLoop m (Suc i) (messages1 @ [BuildToolResultsMessage results]) st3)
      else (Inl (ExceededMaxIterations maxIterations), st))"
  by pat_completeness auto

termination processLoop
  by (relation "measure (\<lambda>(m, i, messages, st). maxIterations - i)") auto

declare processLoop.simps [simp del]

definition processWithToolLoop ::
  "('w, 't) ConversationManager \<Rightarrow> MessageParam list \<Rightarrow> 'w run \<Rightarrow> (AgentError + string) \<times> 'w run" where
  "processWithToolLoop m messages st = processLoop m 0 messages st"

fun buildMessageHistory :: "Conversation option \<Rightarrow> MessageParam list" where
  "buildMessageHistory None = []"
| "buildMessageHistory (Some conv) =
     concat (map (\<lambda>msg. if Role msg = ''user'' then [BuildUserMessage (Content msg)]
                          else if Role msg = ''assistant'' then [BuildAssistantMessage (Content msg)]
                          else []) (Messages conv))"

text \<open>A failed write to the store is logged as a warning and nothing else.\<close>

definition warnOnError ::
  "('w, 't) ConversationManager \<Rightarrow> string \<Rightarrow> string option \<Rightarrow> 'w run \<Rightarrow> 'w run" where
  "warnOnError m msg r st =
     (case r of None \<Rightarrow> st | Some err \<Rightarrow> logTo m (Warn msg [(''error'', Str err)]) st)"

definition callStoreGet ::
  "('w, 't) ConversationManager \<Rightarrow> string \<Rightarrow> 'w run \<Rightarrow> (string + Conversation option) \<times> 'w run" where
  "callStoreGet m conversationID st =
     (case storeGet m conversationID (world st) of (r, w') \<Rightarrow> (r, st\<lparr>world := w'\<rparr>))"

definition callStoreAddMessage ::
  "('w, 't) ConversationManager \<Rightarrow> string \<Rightarrow> string \<Rightarrow> Message \<Rightarrow> 'w run \<Rightarrow> string option \<times> 'w run" where
  "callStoreAddMessage m conversationID channelID msg st =
     (case storeAddMessage m conversationID channelID msg (world st) of
        (r, w') \<Rightarrow> (r, st\<lparr>world := w'\<rparr>))"

definition ProcessMessage ::
  "('w, 't) ConversationManager \<Rightarrow> string \<Rightarrow> string \<Rightarrow> string \<Rightarrow> 'w run \<Rightarrow> (AgentError + string) \<times> 'w run" where
  "ProcessMessage m conversationID channelID userMessage st =
     (case callStoreGet m conversationID st of
        (Inl err, st1) \<Rightarrow> (Inl (GetConversationFailed err), st1)
      | (Inr conv, st1) \<Rightarrow>
          let messages = buildMessageHistory conv @ [BuildUserMessage userMessage] in
          case callStoreAddMessage m conversationID channelID
                 \<lparr>Role = ''user'', Content = userMessage, Timestamp = 0\<rparr> st1 of
            (r1, st2) \<Rightarrow>
              let st3 = warnOnError m ''failed to store user message'' r1 st2 in
              case processWithToolLoop m messages st3 of
                (Inl err, st4) \<Rightarrow> (Inl err, st4)
              | (Inr response, st4) \<Rightarrow>
                  (case callStoreAddMessage m conversationID channelID
                          \<lparr>Role = ''assistant'', Content = response, Timestamp = 0\<rparr> st4 of
                     (r2, st5) \<Rightarrow>
                       (Inr response, warnOnError m ''failed to store assistant message'' r2 st5)))"

lemma executeTools_modelCalls:
  "modelCalls (snd (executeTools m toolUses results st)) = modelCalls st"
proof (induction toolUses arbitrary: results st)
  case Nil
  then show ?case by simp
next
  case (Cons toolUse toolUses)
  obtain toolID toolInput toolName where t: "toolUse = (toolID, toolInput, toolName)"
    by (cases toolUse) auto
  show ?case
    unfolding t
    by (simp add: Let_def callExecutor_def logTo_def Cons.IH split: prod.splits)
qed



lemma processLoop_tool_step:
  assumes "i < maxIterations"
    and "CreateMessageWithTools m messages st = (Inr response, st1)"
    and "HasToolUse response"
    and "executeTools m (ExtractToolUses response) []
           (logTo m (Debug ''processing tool uses'' [(''count'', Num (length (ExtractToolUses response)))]) st1)
         = (results, st3)"
  shows "processLoop m i messages st =
           processLoop m (Suc i)
             (messages @ [MessageParam MessageParamRoleAssistant (assistantContent response),
                          BuildToolResultsMessage results]) st3"
  using assms by (simp add: processLoop.simps [of m i] Let_def)

lemma processLoop_text:
  assumes "i < maxIterations"
    and "CreateMessageWithTools m messages st = (Inr response, st1)"
    and "\<not> HasToolUse response"
  shows "processLoop m i messages st = (Inr (ExtractTextContent response), st1)"
  using assms by (simp add: processLoop.simps [of m i])

lemma processLoop_api_error:
  assumes "i < maxIterations"
    and "CreateMessageWithTools m messages st = (Inl err, st1)"
  shows "processLoop m i messages st = (Inl (ClaudeAPIError err), st1)"
  using assms by (simp add: processLoop.simps [of m i])

lemma processLoop_limit:
  "\<not> i < maxIterations \<Longrightarrow>
   processLoop m i messages st = (Inl (ExceededMaxIterations maxIterations), st)"
  by (simp add: processLoop.simps [of m i])

lemma processLoop_modelCalls_mono:
  "modelCalls st \<le> modelCalls (snd (processLoop m i messages st))"
proof (induction m i messages st rule: processLoop.induct)
  case (1 m i messages st)
  show ?case
  proof (cases "i < maxIterations")
    case False
    then show ?thesis by (simp add: processLoop_limit)
  next
    case True
    obtain r st1 where c: "CreateMessageWithTools m messages st = (r, st1)"
      by (cases "CreateMessageWithTools m messages st") auto
    then have c1: "modelCalls st1 = Suc (modelCalls st)"
      by (auto simp: CreateMessageWithTools_def split: prod.splits)
    show ?thesis
    proof (cases r)
      case (Inl err)
      then show ?thesis using True c c1 by (simp add: processLoop_api_error)
    next
      case (Inr response)
      show ?thesis
      proof (cases "HasToolUse response")
        case False
        then show ?thesis using True c c1 Inr by (simp add: processLoop_text)
      next
        case h: True
        let ?st2 = "logTo m (Debug ''processing tool uses'' [(''count'', Num (length (ExtractToolUses response)))]) st1"
        obtain results st3 where e: "executeTools m (ExtractToolUses response) [] ?st2 = (results, st3)"
          by (cases "executeTools m (ExtractToolUses response) [] ?st2") auto
        have "modelCalls st3 = modelCalls ?st2"
          using executeTools_modelCalls [of m "ExtractToolUses response" "[]" ?st2] e by simp
        then have m3: "modelCalls st3 = Suc (modelCalls st)" using c1 by (simp add: logTo_def)
        have step: "processLoop m i messages st =
            processLoop m (Suc i)
              ((messages @ [MessageParam MessageParamRoleAssistant (assistantContent response)])
                 @ [BuildToolResultsMessage results]) st3"
          using processLoop_tool_step [OF True c [unfolded Inr] h e] by simp
        have "modelCalls st3 \<le> modelCalls (snd (processLoop m (Suc i)
              ((messages @ [MessageParam MessageParamRoleAssistant (assistantContent response)])
                 @ [BuildToolResultsMessage results]) st3))"
          using "1.IH" [OF True c [symmetric] Inr _ refl refl refl e [symmetric]] h by simp
        then show ?thesis using step m3 by simp
      qed
    qed
  qed
qed

lemma processLoop_calls_model:
  assumes "i < maxIterations"
  shows "modelCalls st < modelCalls (snd (processLoop m i messages st))"
proof -
  obtain r st1 where c: "CreateMessageWithTools m messages st = (r, st1)"
    by (cases "CreateMessageWithTools m messages st") auto
  then have c1: "modelCalls st1 = Suc (modelCalls st)"
    by (auto simp: CreateMessageWithTools_def split: prod.splits)
  show ?thesis
  proof (cases r)
    case (Inl err)
    then show ?thesis using assms c c1 by (simp add: processLoop_api_error)
  next
    case (Inr response)
    show ?thesis
    proof (cases "HasToolUse response")
      case False
      then show ?thesis using assms c c1 Inr by (simp add: processLoop_text)
    next
      case h: True
      let ?st2 = "logTo m (Debug ''processing tool uses'' [(''count'', Num (length (ExtractToolUses response)))]) st1"
      obtain results st3 where e: "executeTools m (ExtractToolUses response) [] ?st2 = (results, st3)"
        by (cases "executeTools m (ExtractToolUses response) [] ?st2") auto
      have "modelCalls st3 = modelCalls ?st2"
        using executeTools_modelCalls [of m "ExtractToolUses response" "[]" ?st2] e by simp
      then have m3: "modelCalls st3 = Suc (modelCalls st)" using c1 by (simp add: logTo_def)
      show ?thesis
        unfolding processLoop_tool_step [OF assms c [unfolded Inr] h e]
        using processLoop_modelCalls_mono [of st3 m "Suc i"] m3
        by (metis Suc_le_lessD)
    qed
  qed
qed




section \<open>The tool dispatcher (package slack)\<close>

text \<open>
  The tools themselves are outside the dispatcher: each is a function on the world that
  gets the raw input, \<open>Inl\<close> of its text for an error.
\<close>

record 'w ToolExecutor =
  readFile :: "string \<Rightarrow> 'w \<Rightarrow> (string + string) \<times> 'w"
  listFiles :: "string \<Rightarrow> 'w \<Rightarrow> (string + string) \<times> 'w"
  searchCode :: "string \<Rightarrow> 'w \<Rightarrow> (string + string) \<times> 'w"
  getTree :: "string \<Rightarrow> 'w \<Rightarrow> (string + string) \<times> 'w"
  writeFile :: "string \<Rightarrow> 'w \<Rightarrow> (string + string) \<times> 'w"
  editFile :: "string \<Rightarrow> 'w \<Rightarrow> (string + string) \<times> 'w"
  runCommand :: "string \<Rightarrow> 'w \<Rightarrow> (string + string) \<times> 'w"
  runBuild :: "string \<Rightarrow> 'w \<Rightarrow> (string + string) \<times> 'w"
  runTests :: "string \<Rightarrow> 'w \<Rightarrow> (string + string) \<times> 'w"
  gitStatus :: "'w \<Rightarrow> (string + string) \<times> 'w"
  gitDiff :: "string \<Rightarrow> 'w \<Rightarrow> (string + string) \<times> 'w"
  gitLog :: "string \<Rightarrow> 'w \<Rightarrow> (string + string) \<times> 'w"
  createBranch :: "string \<Rightarrow> 'w \<Rightarrow> (string + string) \<times> 'w"
  commit :: "string \<Rightarrow> 'w \<Rightarrow> (string + string) \<times> 'w"
  push :: "string \<Rightarrow> 'w \<Rightarrow> (string + string) \<times> 'w"
  createPR :: "string \<Rightarrow> 'w \<Rightarrow> (string + string) \<times> 'w"
  getGuidelines :: "'w \<Rightarrow> (string + string) \<times> 'w"
  findTests :: "string \<Rightarrow> 'w \<Rightarrow> (string + string) \<times> 'w"
  analyzeFailures :: "string \<Rightarrow> 'w \<Rightarrow> (string + string) \<times> 'w"
  toolLogger :: "LogRecord \<Rightarrow> 'w \<Rightarrow> 'w"

text \<open>The names the \<^verbatim>\<open>switch\<close> of \<^verbatim>\<open>Execute\<close> has a case for.\<close>

definition dispatchedTools :: "string list" where
  "dispatchedTools =
     [''read_file'', ''list_files'', ''search_code'', ''get_tree'',
      ''write_file'', ''edit_file'',
      ''run_command'', ''run_build'', ''run_tests'',
      ''git_status'', ''git_diff'', ''git_log'', ''create_branch'', ''commit'', ''push'',
      ''create_pr'',
      ''get_guidelines'', ''find_tests'', ''analyze_failures'']"

definition Execute :: "'w ToolExecutor \<Rightarrow> string \<Rightarrow> string \<Rightarrow> 'w \<Rightarrow> (string + string) \<times> 'w" where
  "Execute e name input w0 =
     (let w = toolLogger e (Debug ''executing tool'' [(''name'', Str name)]) w0 in
      if name = ''read_file'' then readFile e input w
      else if name = ''list_files'' then listFiles e input w
      else if name = ''search_code'' then searchCode e input w
      else if name = ''get_tree'' then getTree e input w
      else if name = ''write_file'' then writeFile e input w
      else if name = ''edit_file'' then editFile e input w
      else if name = ''run_command'' then runCommand e input w
      else if name = ''run_build'' then runBuild e input w
      else if name = ''run_tests'' then runTests e input w
      else if name = ''git_status'' then gitStatus e w
      else if name = ''git_diff'' then gitDiff e input w
      else if name = ''git_log'' then gitLog e input w
      else if name = ''create_branch'' then createBranch e input w
      else if name = ''commit'' then commit e input w
      else if name = ''push'' then push e input w
      else if name = ''create_pr'' then createPR e input w
      else if name = ''get_guidelines'' then getGuidelines e w
      else if name = ''find_tests'' then findTests e input w
      else if name = ''analyze_failures'' then analyzeFailures e input w
      else (Inl (''unknown tool: '' @ name), w))"

lemma Execute_unknown:
  "name \<notin> set dispatchedTools \<Longrightarrow>
   Execute e name input w0 =
     (Inl (''unknown tool: '' @ name), toolLogger e (Debug ''executing tool'' [(''name'', Str name)]) w0)"
  by (simp add: Execute_def dispatchedTools_def Let_def)

text \<open>
  What the executor returns for each tool use of a response, in the order of the calls, and
  the \<^verbatim>\<open>ToolResult\<close> that the loop makes of one such return.
\<close>

fun executorReturns ::
  "('w, 't) ConversationManager \<Rightarrow> (string \<times> string \<times> string) list \<Rightarrow> 'w run \<Rightarrow> (string + string) list" where
  "executorReturns m [] st = []"
| "executorReturns m ((toolID, toolInput, toolName) # toolUses) st =
     (case callExecutor m toolName toolInput
             (logTo m (Debug ''executing tool'' [(''name'', Str toolName), (''id'', Str toolID)]) st) of
        (r, st2) \<Rightarrow> r # executorReturns m toolUses st2)"

fun toolResultOf :: "string \<times> string \<times> string \<Rightarrow> string + string \<Rightarrow> ToolResult" where
  "toolResultOf (toolID, toolInput, toolName) (Inl err) =
     \<lparr>ToolUseID = toolID, Result = ''Error: '' @ err, IsError = True\<rparr>"
| "toolResultOf (toolID, toolInput, toolName) (Inr res) =
     \<lparr>ToolUseID = toolID, Result = res, IsError = False\<rparr>"

lemma executeTools_results:
  "fst (executeTools m toolUses results st)
     = results @ map2 toolResultOf toolUses (executorReturns m toolUses st)"
proof (induction toolUses arbitrary: results st)
  case Nil
  then show ?case by simp
next
  case (Cons toolUse toolUses)
  obtain toolID toolInput toolName where t: "toolUse = (toolID, toolInput, toolName)"
    by (cases toolUse) auto
  let ?st1 = "logTo m (Debug ''executing tool'' [(''name'', Str toolName), (''id'', Str toolID)]) st"
  obtain r st2 where c: "callExecutor m toolName toolInput ?st1 = (r, st2)"
    by (cases "callExecutor m toolName toolInput ?st1") auto
  show ?case
    unfolding t using c
    by (cases r) (simp_all add: Let_def Cons.IH FormatError_def)
qed

lemma executorReturns_length: "length (executorReturns m toolUses st) = length toolUses"
proof (induction toolUses arbitrary: st)
  case Nil
  then show ?case by simp
next
  case (Cons toolUse toolUses)
  then show ?case by (cases toolUse) (simp split: prod.splits)
qed

section \<open>Stubs for the examples\<close>

text \<open>
  The world of the examples is the list of the records logged so far. Every tool answers
  \<^verbatim>\<open>ok\<close>, the store has no conversation and refuses every write, as the Redis stub of the
  repository does, and the model answers by a script over the messages it is sent.
\<close>

definition stubTools :: "(LogRecord list) ToolExecutor" where
  "stubTools =
     \<lparr>readFile = (\<lambda>input w. (Inr ''ok'', w)),
      listFiles = (\<lambda>input w. (Inr ''ok'', w)),
      searchCode = (\<lambda>input w. (Inr ''ok'', w)),
      getTree = (\<lambda>input w. (Inr ''ok'', w)),
      writeFile = (\<lambda>input w. (Inr ''ok'', w)),
      editFile = (\<lambda>input w. (Inr ''ok'', w)),
      runCommand = (\<lambda>input w. (Inr ''ok'', w)),
      runBuild = (\<lambda>input w. (Inr ''ok'', w)),
      runTests = (\<lambda>input w. (Inr ''ok'', w)),
      gitStatus = (\<lambda>w. (Inr ''ok'', w)),
      gitDiff = (\<lambda>input w. (Inr ''ok'', w)),
      gitLog = (\<lambda>input w. (Inr ''ok'', w)),
      createBranch = (\<lambda>input w. (Inr ''ok'', w)),
      commit = (\<lambda>input w. (Inr ''ok'', w)),
      push = (\<lambda>input w. (Inr ''ok'', w)),
      createPR = (\<lambda>input w. (Inr ''ok'', w)),
      getGuidelines = (\<lambda>w. (Inr ''ok'', w)),
      findTests = (\<lambda>input w. (Inr ''ok'', w)),
      analyzeFailures = (\<lambda>input w. (Inr ''ok'', w)),
      toolLogger = (\<lambda>r w. w)\<rparr>"

definition stubManager ::
  "(MessageParam list \<Rightarrow> AnthropicMessage) \<Rightarrow> (LogRecord list, unit) ConversationManager" where
  "stubManager script =
     \<lparr>client = (\<lambda>prompt messages catalog w. (Inr (script messages), w)),
      storeGet = (\<lambda>conversationID w. (Inr None, w)),
      storeAddMessage = (\<lambda>conversationID channelID msg w. (Some ''redis store not implemented'', w)),
      systemPrompt = [],
      tools = (),
      executor = Execute stubTools,
      logger = (\<lambda>r w. (case r of Warn msg attrs \<Rightarrow> w @ [r] | Debug msg attrs \<Rightarrow> w))\<rparr>"

definition askGetPR :: AnthropicMessage where
  "askGetPR = AnthropicMessage [TextBlock ''checking'', ToolUseBlock ''tu_1'' ''{}'' ''get_pr''] ''tool_use''"

definition sayDone :: AnthropicMessage where
  "sayDone = AnthropicMessage [TextBlock ''done''] ''end_turn''"

definition start :: "(LogRecord list) run" where
  "start = \<lparr>world = [], modelCalls = 0, toolExecutions = 0\<rparr>"


lemma processLoop_errors:
  "fst (processLoop m i messages st) = Inl e \<Longrightarrow>
   e = ExceededMaxIterations maxIterations \<or> (\<exists>err. e = ClaudeAPIError err)"
proof (induction m i messages st rule: processLoop.induct)
  case (1 m i messages st)
  show ?case
  proof (cases "i < maxIterations")
    case False
    then show ?thesis using "1.prems" by (simp add: processLoop_limit)
  next
    case True
    obtain r st1 where c: "CreateMessageWithTools m messages st = (r, st1)"
      by (cases "CreateMessageWithTools m messages st") auto
    show ?thesis
    proof (cases r)
      case (Inl err)
      then show ?thesis using True c "1.prems" by (auto simp: processLoop_api_error)
    next
      case (Inr response)
      show ?thesis
      proof (cases "HasToolUse response")
        case False
        then show ?thesis using True c Inr "1.prems" by (simp add: processLoop_text)
      next
        case h: True
        let ?st2 = "logTo m (Debug ''processing tool uses'' [(''count'', Num (length (ExtractToolUses response)))]) st1"
        obtain results st3 where e: "executeTools m (ExtractToolUses response) [] ?st2 = (results, st3)"
          by (cases "executeTools m (ExtractToolUses response) [] ?st2") auto
        have step: "processLoop m i messages st =
            processLoop m (Suc i)
              ((messages @ [MessageParam MessageParamRoleAssistant (assistantContent response)])
                 @ [BuildToolResultsMessage results]) st3"
          using processLoop_tool_step [OF True c [unfolded Inr] h e] by simp
        show ?thesis
          using "1.IH" [OF True c [symmetric] Inr _ refl refl refl e [symmetric]] h "1.prems" step
          by simp
      qed
    qed
  qed
qed

text \<open>
  Claim C7. Every return of the executor becomes one \<^verbatim>\<open>ToolResult\<close>, in order; an error
  return becomes a result flagged as an error whose text is the formatted error. The
  dispatcher answers a name it has no case for with the error \<^verbatim>\<open>unknown tool: <name>\<close>. An
  iteration whose response asks for tools goes on to the next iteration, with the assistant
  message and the message of the results appended to the history, whatever the executor
  returned, and below the maximum of iterations that is one more call of the model. The
  only errors the loop ends with are an error of the model API and the exceeded maximum of
  iterations.
\<close>

theorem tool_errors_feed_back:
  "fst (executeTools m toolUses [] st) = map2 toolResultOf toolUses (executorReturns m toolUses st)
   \<and> length (executorReturns m toolUses st) = length toolUses
   \<and> toolResultOf (toolID, toolInput, toolName) (Inl err)
       = \<lparr>ToolUseID = toolID, Result = FormatError err, IsError = True\<rparr>
   \<and> (name \<notin> set dispatchedTools \<longrightarrow>
        fst (Execute e name input w0) = Inl (''unknown tool: '' @ name))
   \<and> (i < maxIterations
        \<and> CreateMessageWithTools m messages st = (Inr response, st1)
        \<and> HasToolUse response \<longrightarrow>
        (\<exists>results st3.
           executeTools m (ExtractToolUses response) []
             (logTo m (Debug ''processing tool uses''
                        [(''count'', Num (length (ExtractToolUses response)))]) st1)
             = (results, st3)
           \<and> processLoop m i messages st =
               processLoop m (Suc i)
                 (messages @ [MessageParam MessageParamRoleAssistant (assistantContent response),
                              BuildToolResultsMessage results]) st3
           \<and> (Suc i < maxIterations \<longrightarrow>
                modelCalls st3 < modelCalls (snd (processLoop m i messages st)))))
   \<and> (\<forall>failure. fst (processWithToolLoop m messages st) = Inl failure \<longrightarrow>
        failure = ExceededMaxIterations 20 \<or> (\<exists>apiError. failure = ClaudeAPIError apiError))"
proof -
  have 1: "fst (executeTools m toolUses [] st) = map2 toolResultOf toolUses (executorReturns m toolUses st)"
    using executeTools_results [of m toolUses "[]" st] by simp
  have 2: "length (executorReturns m toolUses st) = length toolUses"
    by (rule executorReturns_length)
  have 3: "toolResultOf (toolID, toolInput, toolName) (Inl err)
       = \<lparr>ToolUseID = toolID, Result = FormatError err, IsError = True\<rparr>"
    by (simp add: FormatError_def)
  have 4: "fst (Execute e name input w0) = Inl (''unknown tool: '' @ name)"
    if "name \<notin> set dispatchedTools"
    using Execute_unknown [OF that, of e input w0] by simp
  have 5: "\<exists>results st3.
           executeTools m (ExtractToolUses response) []
             (logTo m (Debug ''processing tool uses''
                        [(''count'', Num (length (ExtractToolUses response)))]) st1)
             = (results, st3)
           \<and> processLoop m i messages st =
               processLoop m (Suc i)
                 (messages @ [MessageParam MessageParamRoleAssistant (assistantContent response),
                              BuildToolResultsMessage results]) st3
           \<and> (Suc i < maxIterations \<longrightarrow>
                modelCalls st3 < modelCalls (snd (processLoop m i messages st)))"
    if "i < maxIterations" "CreateMessageWithTools m messages st = (Inr response, st1)"
      "HasToolUse response"
  proof -
    obtain results st3 where e: "executeTools m (ExtractToolUses response) []
             (logTo m (Debug ''processing tool uses''
                        [(''count'', Num (length (ExtractToolUses response)))]) st1) = (results, st3)"
      by (cases "executeTools m (ExtractToolUses response) []
             (logTo m (Debug ''processing tool uses''
                        [(''count'', Num (length (ExtractToolUses response)))]) st1)") auto
    note step = processLoop_tool_step [OF that e]
    have "modelCalls st3 < modelCalls (snd (processLoop m i messages st))"
      if "Suc i < maxIterations"
      unfolding step by (rule processLoop_calls_model [OF that])
    then show ?thesis using step e by blast
  qed
  have 6: "failure = ExceededMaxIterations 20 \<or> (\<exists>apiError. failure = ClaudeAPIError apiError)"
    if "fst (processWithToolLoop m messages st) = Inl failure" for failure
    using processLoop_errors [of m 0 messages st failure] that
    by (simp add: processWithToolLoop_def maxIterations_def)
  show ?thesis using 1 2 3 4 5 6 by blast
qed

text \<open>A model that asks for \<^verbatim>\<open>get_pr\<close> once and answers \<^verbatim>\<open>done\<close> when it has the result.\<close>

definition askThenDone :: "MessageParam list \<Rightarrow> AnthropicMessage" where
  "askThenDone messages = (if length messages \<le> 1 then askGetPR else sayDone)"

text \<open>
  The tool \<^verbatim>\<open>get_pr\<close> is in the catalog sent to the model, and the dispatcher has no case
  for it: the loop feeds the error back and ends with the answer of the second call.
\<close>

theorem tool_errors_feed_back_witness:
  "''get_pr'' \<notin> set dispatchedTools
   \<and> fst (Execute stubTools ''get_pr'' ''{}'' []) = Inl ''unknown tool: get_pr''
   \<and> fst (executeTools (stubManager askThenDone) [(''tu_1'', ''{}'', ''get_pr'')] [] start)
       = [\<lparr>ToolUseID = ''tu_1'', Result = ''Error: unknown tool: get_pr'', IsError = True\<rparr>]
   \<and> processLoop (stubManager askThenDone) 0 [BuildUserMessage ''hi''] start
       = processLoop (stubManager askThenDone) 1
           [BuildUserMessage ''hi'',
            MessageParam MessageParamRoleAssistant
              [NewTextBlock ''checking'', RequestToolUseBlock ''tu_1'' ''{}'' ''get_pr''],
            MessageParam MessageParamRoleUser
              [NewToolResultBlock ''tu_1'' ''Error: unknown tool: get_pr'' True]]
           \<lparr>world = [], modelCalls = 1, toolExecutions = 1\<rparr>
   \<and> processWithToolLoop (stubManager askThenDone) [BuildUserMessage ''hi''] start
       = (Inr ''done'', \<lparr>world = [], modelCalls = 2, toolExecutions = 1\<rparr>)"
proof -
  let ?m = "stubManager askThenDone"
  let ?st1 = "\<lparr>world = [], modelCalls = 1, toolExecutions = 0\<rparr> :: (LogRecord list) run"
  have h1: "''get_pr'' \<notin> set dispatchedTools" by code_simp
  have h2: "(0::nat) < maxIterations" by (simp add: maxIterations_def)
  have h3: "CreateMessageWithTools ?m [BuildUserMessage ''hi''] start = (Inr askGetPR, ?st1)"
    by (simp add: CreateMessageWithTools_def stubManager_def askThenDone_def start_def)
  have h4: "HasToolUse askGetPR" by (simp add: askGetPR_def)
  have r: "executorReturns ?m [(''tu_1'', ''{}'', ''get_pr'')] start = [Inl ''unknown tool: get_pr'']"
    by code_simp
  have x: "ExtractToolUses askGetPR = [(''tu_1'', ''{}'', ''get_pr'')]"
    "assistantContent askGetPR = [NewTextBlock ''checking'', RequestToolUseBlock ''tu_1'' ''{}'' ''get_pr'']"
    by (simp_all add: askGetPR_def)
  have e: "executeTools ?m [(''tu_1'', ''{}'', ''get_pr'')] []
             (logTo ?m (Debug ''processing tool uses'' [(''count'', Num 1)]) ?st1)
           = ([\<lparr>ToolUseID = ''tu_1'', Result = ''Error: unknown tool: get_pr'', IsError = True\<rparr>],
              \<lparr>world = [], modelCalls = 1, toolExecutions = 1\<rparr>)"
    by code_simp
  have v: "processWithToolLoop ?m [BuildUserMessage ''hi''] start
       = (Inr ''done'', \<lparr>world = [], modelCalls = 2, toolExecutions = 1\<rparr>)"
    by code_simp
  note t = tool_errors_feed_back [of ?m "[(''tu_1'', ''{}'', ''get_pr'')]" start
      "''tu_1''" "''{}''" "''get_pr''" "''unknown tool: get_pr''" "''get_pr''" stubTools "''{}''" "[]"
      0 "[BuildUserMessage ''hi'']" askGetPR ?st1]
  have a: "fst (Execute stubTools ''get_pr'' ''{}'' []) = Inl ''unknown tool: get_pr''"
    using t h1 by simp
  have b: "fst (executeTools ?m [(''tu_1'', ''{}'', ''get_pr'')] [] start)
       = [\<lparr>ToolUseID = ''tu_1'', Result = ''Error: unknown tool: get_pr'', IsError = True\<rparr>]"
    using t r by simp
  have c: "processLoop ?m 0 [BuildUserMessage ''hi''] start
       = processLoop ?m 1
           [BuildUserMessage ''hi'',
            MessageParam MessageParamRoleAssistant
              [NewTextBlock ''checking'', RequestToolUseBlock ''tu_1'' ''{}'' ''get_pr''],
            MessageParam MessageParamRoleUser
              [NewToolResultBlock ''tu_1'' ''Error: unknown tool: get_pr'' True]]
           \<lparr>world = [], modelCalls = 1, toolExecutions = 1\<rparr>"
    using t h2 h3 h4 e x by (simp add: BuildToolResultsMessage_def)
  show ?thesis using h1 a b c v by simp
qed

text \<open>
  Claim C10. When the store returns the conversation and the tool loop returns a response,
  \<^verbatim>\<open>ProcessMessage\<close> returns that response and no error, whatever the two calls of
  \<^verbatim>\<open>AddMessage\<close> return. An error of \<^verbatim>\<open>AddMessage\<close> only adds a warning to the log. The loop
  runs on the history built from the conversation that was read, with the user message
  appended, not on what the store holds after the write.
\<close>

theorem store_write_failure_not_propagated:
  assumes "callStoreGet m conversationID st = (Inr conv, st1)"
    and "callStoreAddMessage m conversationID channelID
           \<lparr>Role = ''user'', Content = userMessage, Timestamp = 0\<rparr> st1 = (r1, st2)"
    and "processWithToolLoop m (buildMessageHistory conv @ [BuildUserMessage userMessage])
           (warnOnError m ''failed to store user message'' r1 st2) = (Inr response, st4)"
    and "callStoreAddMessage m conversationID channelID
           \<lparr>Role = ''assistant'', Content = response, Timestamp = 0\<rparr> st4 = (r2, st5)"
  shows "ProcessMessage m conversationID channelID userMessage st
           = (Inr response, warnOnError m ''failed to store assistant message'' r2 st5)
         \<and> warnOnError m ''failed to store assistant message'' None st5 = st5
         \<and> warnOnError m ''failed to store assistant message'' (Some storeError) st5
             = st5\<lparr>world := logger m (Warn ''failed to store assistant message''
                                         [(''error'', Str storeError)]) (world st5)\<rparr>"
  using assms by (simp add: ProcessMessage_def Let_def warnOnError_def logTo_def)

text \<open>The theorem at a store that refuses both writes: the two warnings are all that is left.\<close>

theorem store_write_failure_not_propagated_witness:
  "ProcessMessage (stubManager (\<lambda>messages. sayDone)) ''1700000000.000100'' ''C042'' ''hi'' start
     = (Inr ''done'',
        \<lparr>world = [Warn ''failed to store user message'' [(''error'', Str ''redis store not implemented'')],
                  Warn ''failed to store assistant message'' [(''error'', Str ''redis store not implemented'')]],
         modelCalls = 1, toolExecutions = 0\<rparr>)"
proof -
  let ?m = "stubManager (\<lambda>messages. sayDone)"
  let ?w1 = "[Warn ''failed to store user message'' [(''error'', Str ''redis store not implemented'')]]"
  have g: "callStoreGet ?m ''1700000000.000100'' start = (Inr None, start)"
    by (simp add: callStoreGet_def stubManager_def start_def)
  have a1: "callStoreAddMessage ?m ''1700000000.000100'' ''C042''
           \<lparr>Role = ''user'', Content = ''hi'', Timestamp = 0\<rparr> start
           = (Some ''redis store not implemented'', start)"
    by (simp add: callStoreAddMessage_def stubManager_def start_def)
  have l: "processWithToolLoop ?m (buildMessageHistory None @ [BuildUserMessage ''hi''])
           (warnOnError ?m ''failed to store user message'' (Some ''redis store not implemented'') start)
           = (Inr ''done'', \<lparr>world = ?w1, modelCalls = 1, toolExecutions = 0\<rparr>)"
    by code_simp
  have a2: "callStoreAddMessage ?m ''1700000000.000100'' ''C042''
           \<lparr>Role = ''assistant'', Content = ''done'', Timestamp = 0\<rparr>
           \<lparr>world = ?w1, modelCalls = 1, toolExecutions = 0\<rparr>
           = (Some ''redis store not implemented'', \<lparr>world = ?w1, modelCalls = 1, toolExecutions = 0\<rparr>)"
    by (simp add: callStoreAddMessage_def stubManager_def)
  show ?thesis
    using store_write_failure_not_propagated [OF g a1 l a2]
    by (simp add: warnOnError_def logTo_def stubManager_def)
qed

section \<open>The in-memory store (storage.MemoryStore)\<close>

text \<open>
  The map of the store holds pointers to conversations, but no pointer leaves the store:
  \<^verbatim>\<open>Get\<close> returns a copy and \<^verbatim>\<open>Save\<close> stores one. So the store is a map from ids to
  conversations. Every method runs under the lock of the store, one call after the other.
  The readings of the clock are parameters.
\<close>

record MemoryStore =
  conversations :: "string \<rightharpoonup> Conversation"

definition NewMemoryStore :: MemoryStore where
  "NewMemoryStore = \<lparr>conversations = Map.empty\<rparr>"

definition copyConversation :: "Conversation \<Rightarrow> Conversation" where
  "copyConversation conv =
     \<lparr>ID = ID conv, ChannelID = ChannelID conv, Messages = map (\<lambda>msg. msg) (Messages conv),
      CreatedAt = CreatedAt conv, UpdatedAt = UpdatedAt conv\<rparr>"

definition Get :: "MemoryStore \<Rightarrow> string \<Rightarrow> string + Conversation option" where
  "Get s convID =
     (case conversations s convID of
        None \<Rightarrow> Inr None
      | Some conv \<Rightarrow> Inr (Some (copyConversation conv)))"

text \<open>
  \<^verbatim>\<open>AddMessage\<close> reads the clock for \<^verbatim>\<open>CreatedAt\<close> when it creates the conversation, and
  once more for \<^verbatim>\<open>UpdatedAt\<close>. It returns the new store; its error is always \<^verbatim>\<open>nil\<close>.
\<close>

definition AddMessage ::
  "MemoryStore \<Rightarrow> string \<Rightarrow> string \<Rightarrow> Message \<Rightarrow> time \<Rightarrow> time \<Rightarrow> MemoryStore \<times> string option" where
  "AddMessage s convID channelID msg createdNow updatedNow =
     (let conv = (case conversations s convID of
                    None \<Rightarrow> \<lparr>ID = convID, ChannelID = channelID, Messages = [],
                              CreatedAt = createdNow, UpdatedAt = 0\<rparr>
                  | Some conv \<Rightarrow> conv)
      in (s\<lparr>conversations := (conversations s)
              (convID \<mapsto> conv\<lparr>Messages := Messages conv @ [msg], UpdatedAt := updatedNow\<rparr>)\<rparr>,
          None))"

text \<open>
  A call of \<^verbatim>\<open>AddMessage\<close>: the id, the channel, the message and the two readings of the
  clock. \<open>AddMessages\<close> makes the calls of a list on a store, one after the other.
\<close>

type_synonym addCall = "string \<times> string \<times> Message \<times> time \<times> time"

fun AddMessages :: "MemoryStore \<Rightarrow> addCall list \<Rightarrow> MemoryStore" where
  "AddMessages s [] = s"
| "AddMessages s ((convID, channelID, msg, createdNow, updatedNow) # calls) =
     AddMessages (fst (AddMessage s convID channelID msg createdNow updatedNow)) calls"

text \<open>The messages of the calls made for one id, in the order of the calls.\<close>

definition messagesFor :: "string \<Rightarrow> addCall list \<Rightarrow> Message list" where
  "messagesFor convID calls =
     map (\<lambda>call. fst (snd (snd call))) (filter (\<lambda>call. fst call = convID) calls)"

definition storedMessages :: "MemoryStore \<Rightarrow> string \<Rightarrow> Message list" where
  "storedMessages s convID = (case conversations s convID of None \<Rightarrow> [] | Some conv \<Rightarrow> Messages conv)"

lemma AddMessage_stored:
  "storedMessages (fst (AddMessage s i channelID msg t1 t2)) convID
     = (if i = convID then storedMessages s convID @ [msg] else storedMessages s convID)"
  by (simp add: AddMessage_def storedMessages_def Let_def split: option.splits)

lemma AddMessage_present:
  "(conversations (fst (AddMessage s i channelID msg t1 t2)) convID = None)
     = (i \<noteq> convID \<and> conversations s convID = None)"
  by (simp add: AddMessage_def Let_def)

lemma AddMessages_stored:
  "storedMessages (AddMessages s calls) convID = storedMessages s convID @ messagesFor convID calls"
proof (induction calls arbitrary: s)
  case Nil
  then show ?case by (simp add: messagesFor_def)
next
  case (Cons call calls)
  obtain i channelID msg t1 t2 where c: "call = (i, channelID, msg, t1, t2)"
    by (cases call) auto
  show ?case
    unfolding c by (simp add: Cons.IH AddMessage_stored messagesFor_def)
qed

lemma AddMessages_present:
  "(conversations (AddMessages s calls) convID = None)
     = (conversations s convID = None \<and> messagesFor convID calls = [])"
proof (induction calls arbitrary: s)
  case Nil
  then show ?case by (simp add: messagesFor_def)
next
  case (Cons call calls)
  obtain i channelID msg t1 t2 where c: "call = (i, channelID, msg, t1, t2)"
    by (cases call) auto
  show ?case
    unfolding c by (auto simp: Cons.IH AddMessage_present messagesFor_def)
qed

text \<open>
  Claim C8, as amended. After any calls of \<^verbatim>\<open>AddMessage\<close> on a new store, at least one of
  them for the id, \<^verbatim>\<open>Get\<close> returns a conversation whose messages are those of the calls for
  the id, in the order of the calls, each unchanged.
\<close>

theorem add_then_get_roundtrip:
  assumes "messagesFor convID calls \<noteq> []"
  shows "\<exists>conv. Get (AddMessages NewMemoryStore calls) convID = Inr (Some conv)
           \<and> Messages conv = messagesFor convID calls
           \<and> length (Messages conv) = length (filter (\<lambda>call. fst call = convID) calls)"
proof -
  let ?s = "AddMessages NewMemoryStore calls"
  have "conversations ?s convID \<noteq> None"
    using assms by (simp add: AddMessages_present)
  then obtain stored where st: "conversations ?s convID = Some stored" by blast
  have "storedMessages NewMemoryStore convID = []"
    by (simp add: storedMessages_def NewMemoryStore_def)
  then have "storedMessages ?s convID = messagesFor convID calls"
    by (simp add: AddMessages_stored)
  then have m: "Messages stored = messagesFor convID calls"
    using st by (simp add: storedMessages_def)
  have g: "Get ?s convID = Inr (Some (copyConversation stored))"
    using st by (simp add: Get_def)
  have l: "length (messagesFor convID calls) = length (filter (\<lambda>call. fst call = convID) calls)"
    by (simp add: messagesFor_def)
  show ?thesis using g m l by (simp add: copyConversation_def)
qed

text \<open>Three calls, the second for another conversation.\<close>

theorem add_then_get_roundtrip_witness:
  "\<exists>conv. Get (AddMessages NewMemoryStore
             [(''t1'', ''C1'', \<lparr>Role = ''user'', Content = ''fix the build'', Timestamp = 0\<rparr>, 10, 11),
              (''t2'', ''C1'', \<lparr>Role = ''user'', Content = ''hello'', Timestamp = 0\<rparr>, 12, 13),
              (''t1'', ''C1'', \<lparr>Role = ''assistant'', Content = ''done'', Timestamp = 0\<rparr>, 14, 15)]) ''t1''
            = Inr (Some conv)
         \<and> Messages conv = [\<lparr>Role = ''user'', Content = ''fix the build'', Timestamp = 0\<rparr>,
                             \<lparr>Role = ''assistant'', Content = ''done'', Timestamp = 0\<rparr>]"
proof -
  let ?calls = "[(''t1'', ''C1'', \<lparr>Role = ''user'', Content = ''fix the build'', Timestamp = 0\<rparr>, 10, 11),
              (''t2'', ''C1'', \<lparr>Role = ''user'', Content = ''hello'', Timestamp = 0\<rparr>, 12, 13),
              (''t1'', ''C1'', \<lparr>Role = ''assistant'', Content = ''done'', Timestamp = 0\<rparr>, 14, 15)] :: addCall list"
  have m: "messagesFor ''t1'' ?calls = [\<lparr>Role = ''user'', Content = ''fix the build'', Timestamp = 0\<rparr>,
                             \<lparr>Role = ''assistant'', Content = ''done'', Timestamp = 0\<rparr>]"
    by (simp add: messagesFor_def)
  then have h: "messagesFor ''t1'' ?calls \<noteq> []" by simp
  show ?thesis using add_then_get_roundtrip [OF h] m by auto
qed

text \<open>
  Claim C8 as it was stated is for every number of calls, none included: on a new store
  \<^verbatim>\<open>Get\<close> returns no conversation (\<^verbatim>\<open>nil\<close>), not a conversation without messages.
\<close>

theorem get_without_add_counterexample:
  "AddMessages NewMemoryStore [] = NewMemoryStore
   \<and> Get (AddMessages NewMemoryStore []) ''t1'' = Inr None"
  by (simp add: Get_def NewMemoryStore_def)

section \<open>The capped writer of the command runner (package executor)\<close>

text \<open>
  The buffer of a \<^verbatim>\<open>limitedWriter\<close> is its contents, a list of bytes; \<^verbatim>\<open>bytes.Buffer.Write\<close>
  appends and returns the number of bytes appended and no error. Go's \<^verbatim>\<open>int\<close> is an
  \<^typ>\<open>int\<close> here: \<open>written\<close> stays between 0 and the limit, far from the ends of 64 bits.
\<close>

definition MaxOutputSize :: int where
  "MaxOutputSize = 100 * 1024"

record limitedWriter =
  w :: string
  limit :: int
  written :: int

text \<open>
  \<^verbatim>\<open>Write\<close> returns the new writer, \<open>n\<close> and the error. After \<^verbatim>\<open>p = p[:remaining]\<close> the
  \<^verbatim>\<open>len(p)\<close> of the last line is the length of what is left of \<open>p\<close>.
\<close>

definition Write :: "limitedWriter \<Rightarrow> string \<Rightarrow> limitedWriter \<times> int \<times> string option" where
  "Write lw p =
     (let remaining = limit lw - written lw in
      if remaining \<le> 0 then (lw, int (length p), None)
      else
        let p' = (if int (length p) > remaining then take (nat remaining) p else p);
            n = int (length p')
        in (lw\<lparr>w := w lw @ p', written := written lw + n\<rparr>, int (length p'), None))"

text \<open>The writes of a list of chunks, one after the other.\<close>

fun WriteAll :: "limitedWriter \<Rightarrow> string list \<Rightarrow> limitedWriter" where
  "WriteAll lw [] = lw"
| "WriteAll lw (p # ps) = WriteAll (fst (Write lw p)) ps"

lemma Write_keeps_buffer:
  assumes "written lw = int (length (w lw))" "written lw \<le> limit lw"
  shows "w (fst (Write lw p)) = take (nat (limit lw)) (w lw @ p)
         \<and> limit (fst (Write lw p)) = limit lw
         \<and> written (fst (Write lw p)) = int (length (w (fst (Write lw p))))
         \<and> written (fst (Write lw p)) \<le> limit (fst (Write lw p))"
proof (cases "limit lw - written lw \<le> 0")
  case True
  then have "nat (limit lw) = length (w lw)" using assms by simp
  then show ?thesis using True assms by (simp add: Write_def)
next
  case False
  then have r: "nat (limit lw) = length (w lw) + nat (limit lw - written lw)"
    using assms by simp
  show ?thesis
  proof (cases "int (length p) > limit lw - written lw")
    case True
    then show ?thesis using False assms r
      by (simp add: Write_def Let_def min_def)
  next
    case False
    then show ?thesis using \<open>\<not> limit lw - written lw \<le> 0\<close> assms r
      by (simp add: Write_def Let_def)
  qed
qed

lemma WriteAll_buffer:
  assumes "written lw = int (length (w lw))" "written lw \<le> limit lw"
  shows "w (WriteAll lw ps) = take (nat (limit lw)) (w lw @ concat ps)"
  using assms
proof (induction ps arbitrary: lw)
  case Nil
  then show ?case by simp
next
  case (Cons p ps)
  note k = Write_keeps_buffer [OF Cons.prems, of p]
  have "w (WriteAll (fst (Write lw p)) ps)
      = take (nat (limit (fst (Write lw p)))) (w (fst (Write lw p)) @ concat ps)"
    using Cons.IH k by blast
  also have "\<dots> = take (nat (limit lw)) (take (nat (limit lw)) (w lw @ p) @ concat ps)"
    using k by simp
  also have "\<dots> = take (nat (limit lw)) (w lw @ p @ concat ps)"
    by (simp add: min_def)
  finally show ?case by simp
qed

lemma WriteAll_full: "limit lw - written lw \<le> 0 \<Longrightarrow> WriteAll lw ps = lw"
  by (induction ps) (simp_all add: Write_def)

lemma WriteAll_fresh:
  "w (WriteAll \<lparr>w = [], limit = L, written = 0\<rparr> ps) = take (nat L) (concat ps)"
proof (cases "0 \<le> L")
  case True
  then show ?thesis
    using WriteAll_buffer [of "\<lparr>w = [], limit = L, written = 0\<rparr>" ps] by simp
next
  case False
  then show ?thesis
    using WriteAll_full [of "\<lparr>w = [], limit = L, written = 0\<rparr>" ps] by simp
qed

lemma Write_short:
  assumes "0 < limit lw - written lw" "limit lw - written lw < int (length p)"
  shows "fst (snd (Write lw p)) = limit lw - written lw" "snd (snd (Write lw p)) = None"
  using assms by (simp_all add: Write_def Let_def)

text \<open>
  Claim C9 at a write that crosses the limit: a writer with limit 5 that has written
  nothing is given eight bytes. It keeps the first five, and it returns 5 and no error,
  where the claim and the comment of the source say the full length, 8. The same happens
  at the limit of the runner, one byte below it.
\<close>

theorem limitedWriter_short_write:
  "Write \<lparr>w = [], limit = 5, written = 0\<rparr> ''abcdefgh''
     = (\<lparr>w = ''abcde'', limit = 5, written = 5\<rparr>, 5, None)
   \<and> int (length ''abcdefgh'') = 8
   \<and> snd (Write \<lparr>w = buffer, limit = MaxOutputSize, written = MaxOutputSize - 1\<rparr> ''ab'')
       = (1, None)"
  by (simp add: Write_def MaxOutputSize_def)

end
